theory Spec2Isabelle
  imports Complex_Main "HOL-Library.Sublist"
begin

section \<open>Calendar arithmetic\<close>

text \<open>
  The scheduler computes with the standard library's naive \<open>datetime\<close>, \<open>date\<close> and
  \<open>timedelta\<close> values. A \<open>date\<close> is modelled by its proleptic Gregorian ordinal
  (day 1 is 0001-01-01, a Monday), a \<open>timedelta\<close> by its length in microseconds and a
  \<open>datetime\<close> by the number of microseconds since 00:00 of ordinal day 0, so that
  comparison, addition and subtraction of instants are those of the integers. The
  library's range limit (years 1 to 9999) is not part of the model: instants are
  unbounded.
\<close>

type_synonym date = int
type_synonym datetime = int
type_synonym timedelta = int

definition US_PER_MINUTE :: int where
  "US_PER_MINUTE = 60000000"

definition US_PER_HOUR :: int where
  "US_PER_HOUR = 3600000000"

definition US_PER_DAY :: int where
  "US_PER_DAY = 86400000000"

definition td_minutes :: "int \<Rightarrow> timedelta" where
  "td_minutes n = n * US_PER_MINUTE"

definition td_hours :: "int \<Rightarrow> timedelta" where
  "td_hours n = n * US_PER_HOUR"



text \<open>\<open>timedelta.days\<close>: whole days, rounding towards minus infinity.\<close>

definition td_days_of :: "timedelta \<Rightarrow> int" where
  "td_days_of d = d div US_PER_DAY"

text \<open>\<open>dt.date()\<close>, \<open>dt.hour\<close>, \<open>dt.minute\<close>, \<open>dt.second\<close>, \<open>dt.microsecond\<close>.\<close>

definition dt_date :: "datetime \<Rightarrow> date" where
  "dt_date t = t div US_PER_DAY"

definition dt_hour :: "datetime \<Rightarrow> int" where
  "dt_hour t = (t mod US_PER_DAY) div US_PER_HOUR"

definition dt_minute :: "datetime \<Rightarrow> int" where
  "dt_minute t = (t mod US_PER_HOUR) div US_PER_MINUTE"

definition dt_second :: "datetime \<Rightarrow> int" where
  "dt_second t = (t mod US_PER_MINUTE) div 1000000"

definition dt_microsecond :: "datetime \<Rightarrow> int" where
  "dt_microsecond t = t mod 1000000"

text \<open>\<open>d.weekday()\<close>: Monday is 0, Saturday 5, Sunday 6.\<close>

definition date_weekday :: "date \<Rightarrow> int" where
  "date_weekday d = (d + 6) mod 7"

definition dt_weekday :: "datetime \<Rightarrow> int" where
  "dt_weekday t = date_weekday (dt_date t)"

text \<open>\<open>datetime.combine(d, time(h, m))\<close>. Every call of the scheduler passes
  \<open>0 \<le> h < 24\<close> and \<open>0 \<le> m < 60\<close>, where \<open>time(h, m)\<close> does not raise.\<close>

definition dt_combine :: "date \<Rightarrow> int \<Rightarrow> int \<Rightarrow> datetime" where
  "dt_combine d h m = d * US_PER_DAY + h * US_PER_HOUR + m * US_PER_MINUTE"

subsection \<open>Civil dates\<close>

text \<open>The library's conversion between ordinals and (year, month, day), used for
  \<open>isoformat\<close> and to write concrete dates.\<close>

definition is_leap :: "int \<Rightarrow> bool" where
  "is_leap y = (y mod 4 = 0 \<and> (y mod 100 \<noteq> 0 \<or> y mod 400 = 0))"

definition days_before_year :: "int \<Rightarrow> int" where
  "days_before_year year =
     (let y = year - 1 in y * 365 + y div 4 - y div 100 + y div 400)"

definition DAYS_IN_MONTH :: "int list" where
  "DAYS_IN_MONTH = [0, 31, 28, 31, 30, 31, 30, 31, 31, 30, 31, 30, 31]"

definition DAYS_BEFORE_MONTH :: "int list" where
  "DAYS_BEFORE_MONTH = [0, 0, 31, 59, 90, 120, 151, 181, 212, 243, 273, 304, 334]"

definition days_before_month :: "int \<Rightarrow> int \<Rightarrow> int" where
  "days_before_month year month =
     DAYS_BEFORE_MONTH ! nat month + (if month > 2 \<and> is_leap year then 1 else 0)"

definition ymd2ord :: "int \<Rightarrow> int \<Rightarrow> int \<Rightarrow> date" where
  "ymd2ord year month day =
     days_before_year year + days_before_month year month + day"

definition ord2ymd :: "date \<Rightarrow> int \<times> int \<times> int" where
  "ord2ymd ord =
     (let n0 = ord - 1;
          n400 = n0 div 146097; n1 = n0 mod 146097;
          n100 = n1 div 36524; n2 = n1 mod 36524;
          n4 = n2 div 1461; n3 = n2 mod 1461;
          ny = n3 div 365; n = n3 mod 365;
          year = n400 * 400 + 1 + n100 * 100 + n4 * 4 + ny
      in if ny = 4 \<or> n100 = 4 then (year - 1, 12, 31)
         else
           let leapyear = (ny = 3 \<and> (n4 \<noteq> 24 \<or> n100 = 3));
               month = (n + 50) div 32;
               preceding = DAYS_BEFORE_MONTH ! nat month
                             + (if month > 2 \<and> leapyear then 1 else 0)
           in if preceding > n
              then let month' = month - 1;
                       preceding' = preceding - (DAYS_IN_MONTH ! nat month'
                                      + (if month' = 2 \<and> leapyear then 1 else 0))
                   in (year, month', n - preceding' + 1)
              else (year, month, n - preceding + 1))"

text \<open>\<open>datetime(y, mo, d, h, mi)\<close>.\<close>

definition mk_datetime :: "int \<Rightarrow> int \<Rightarrow> int \<Rightarrow> int \<Rightarrow> int \<Rightarrow> datetime" where
  "mk_datetime y mo d h mi = dt_combine (ymd2ord y mo d) h mi"

subsection \<open>Rendering\<close>

fun str_nat :: "nat \<Rightarrow> string" where
  "str_nat n =
     (if n < 10 then [char_of (48 + n)]
      else str_nat (n div 10) @ [char_of (48 + n mod 10)])"

declare str_nat.simps [simp del]

definition str_int :: "int \<Rightarrow> string" where
  "str_int i = (if i < 0 then CHR ''-'' # str_nat (nat (- i)) else str_nat (nat i))"

text \<open>\<open>'%0wd' % i\<close> for a non-negative \<open>i\<close>.\<close>

definition zfill :: "nat \<Rightarrow> int \<Rightarrow> string" where
  "zfill w i = (let s = str_int i in replicate (w - length s) CHR ''0'' @ s)"

definition date_isoformat :: "date \<Rightarrow> string" where
  "date_isoformat d =
     (case ord2ymd d of (y, m, dd) \<Rightarrow>
        zfill 4 y @ ''-'' @ zfill 2 m @ ''-'' @ zfill 2 dd)"

definition dt_isoformat :: "datetime \<Rightarrow> string" where
  "dt_isoformat t =
     date_isoformat (dt_date t) @ ''T'' @ zfill 2 (dt_hour t) @ '':''
       @ zfill 2 (dt_minute t) @ '':'' @ zfill 2 (dt_second t)
       @ (if dt_microsecond t \<noteq> 0 then ''.'' @ zfill 6 (dt_microsecond t) else [])"


section \<open>Data model\<close>

record ScheduledAction =
  action_id :: int
  action_type :: string
  scheduled_start :: datetime
  scheduled_end :: datetime
  priority :: int
  batch_id :: "string option"
  notes' :: "string option"

record ScheduleWindow =
  start :: datetime
  end' :: datetime
  peak_hours :: "int list"
  blocked_hours :: "int list"
  timezone_offset :: int

text \<open>The defaults of the window's optional fields.\<close>

definition default_window :: "datetime \<Rightarrow> datetime \<Rightarrow> ScheduleWindow" where
  "default_window s e =
     \<lparr>start = s, end' = e, peak_hours = [9, 10, 11, 14, 15, 19, 20],
      blocked_hours = [0, 1, 2, 3, 4, 5, 6, 22, 23], timezone_offset = 0\<rparr>"

text \<open>The exceptions the scheduler's own code can raise.\<close>

datatype py_error = ZeroDivisionError | IndexError

text \<open>
  The ambient random source is made explicit: a scheduler function takes the stream of
  raw draws and the position of the next draw, and returns the new position.
  \<open>random.randint(a, b)\<close> with \<open>a \<le> b\<close> yields a value in \<open>[a, b]\<close>, whatever the stream.
\<close>

type_synonym rng = "nat \<Rightarrow> nat"

definition randint :: "rng \<Rightarrow> nat \<Rightarrow> int \<Rightarrow> int \<Rightarrow> int" where
  "randint g k a b = a + int (g k mod nat (b - a + 1))"

section \<open>BusinessClock\<close>

text \<open>
  \<open>_next_business_hour\<close>: the loop may run forever, so the model returns \<open>None\<close> when
  the source does not return.
\<close>

partial_function (option) next_business_hour ::
    "datetime \<Rightarrow> ScheduleWindow \<Rightarrow> datetime option" where
  "next_business_hour result window =
     (if dt_hour result \<in> set (blocked_hours window) \<or> dt_weekday result \<ge> 5
      then
        (if dt_weekday result \<ge> 5
         then (let days_until_monday = 7 - dt_weekday result
               in next_business_hour
                    (dt_combine (dt_date result + days_until_monday) 9 0) window)
         else next_business_hour (dt_combine (dt_date result + 1) 9 0) window)
      else Some result)"

declare next_business_hour.simps [code]


subsection \<open>Facts about the calendar functions\<close>

lemma dt_date_combine:
  assumes "0 \<le> h" "h < 24" "0 \<le> m" "m < 60"
  shows "dt_date (dt_combine d h m) = d"
proof -
  let ?x = "h * 3600000000 + m * 60000000"
  have b: "0 \<le> ?x" "?x < 86400000000" using assms by auto
  have "(d * 86400000000 + ?x) div 86400000000 = d"
    using b by (simp add: div_pos_pos_trivial)
  then show ?thesis
    by (simp add: dt_date_def dt_combine_def US_PER_DAY_def US_PER_HOUR_def
        US_PER_MINUTE_def add.assoc)
qed


lemma dt_weekday_combine:
  "0 \<le> h \<Longrightarrow> h < 24 \<Longrightarrow> 0 \<le> m \<Longrightarrow> m < 60 \<Longrightarrow>
   dt_weekday (dt_combine d h m) = date_weekday d"
  by (simp add: dt_weekday_def dt_date_combine)

lemma date_weekday_range: "0 \<le> date_weekday d \<and> date_weekday d < 7"
  by (simp add: date_weekday_def)


lemma date_weekday_succ:
  "date_weekday (d + 1) = (if date_weekday d = 6 then 0 else date_weekday d + 1)"
proof -
  define q where "q = (d + 6) div 7"
  define r where "r = (d + 6) mod 7"
  have e: "d + 6 = 7 * q + r" unfolding q_def r_def by simp
  have r: "0 \<le> r" "r < 7" unfolding r_def by simp_all
  have "d + 1 + 6 = (r + 1) + 7 * q" using e by linarith
  then have "(d + 1 + 6) mod 7 = (r + 1) mod 7"
    by (metis mod_mult_self2)
  also have "\<dots> = (if r = 6 then 0 else r + 1)"
    using r by (simp add: mod_pos_pos_trivial)
  finally show ?thesis by (simp add: date_weekday_def r_def)
qed

section \<open>StaggerStrategy\<close>

text \<open>The inner loop of \<open>schedule_email_campaign\<close> that rolls the cursor off a weekend:
  \<^verbatim>\<open>while current_time.weekday() >= 5: current_time = combine(date + 1 day, 09:00)\<close>.\<close>

function skip_weekend :: "datetime \<Rightarrow> datetime" where
  "skip_weekend current_time =
     (if dt_weekday current_time \<ge> 5
      then skip_weekend (dt_combine (dt_date current_time + 1) 9 0)
      else current_time)"
  by pat_completeness auto
termination
proof (relation "measure (\<lambda>t. if dt_weekday t \<ge> 5 then nat (7 - dt_weekday t) else 0)")
  show "wf (measure (\<lambda>t. if dt_weekday t \<ge> 5 then nat (7 - dt_weekday t) else 0))"
    by simp
next
  fix current_time :: datetime
  assume "5 \<le> dt_weekday current_time"
  moreover have "dt_weekday current_time < 7"
    using date_weekday_range [of "dt_date current_time"] by (simp add: dt_weekday_def)
  moreover have "dt_weekday (dt_combine (dt_date current_time + 1) 9 0)
      = (if dt_weekday current_time = 6 then 0 else dt_weekday current_time + 1)"
    by (simp add: dt_weekday_combine) (simp add: dt_weekday_def date_weekday_succ)
  ultimately show "(dt_combine (dt_date current_time + 1) 9 0, current_time)
      \<in> measure (\<lambda>t. if dt_weekday t \<ge> 5 then nat (7 - dt_weekday t) else 0)"
    by auto
qed

declare skip_weekend.simps [simp del]

definition PERSONALIZE_NOTE :: string where
  "PERSONALIZE_NOTE =
     ''IMPORTANT: Personalize this email. Do not send the template verbatim. ''
     @ ''Add your personal connection, specific local knowledge, or professional ''
     @ ''expertise. Personalized emails are 10x more effective.''"

text \<open>\<open>scheduled.append(a)\<close> followed by the rest of the loop, which may raise.\<close>

definition emit :: "'a \<Rightarrow> py_error + 'a list \<Rightarrow> py_error + 'a list" where
  "emit a r = (case r of Inl e \<Rightarrow> Inl e | Inr xs \<Rightarrow> Inr (a # xs))"

text \<open>
  The \<open>for i, action_id in enumerate(action_ids)\<close> loop. Its state is the running
  \<open>current_date\<close>, \<open>daily_count\<close> and \<open>current_time\<close>, and the position \<open>k\<close> in the stream
  of random draws. \<open>i // emails_per_day\<close> raises \<open>ZeroDivisionError\<close> for a zero divisor.
\<close>

fun email_loop ::
    "rng \<Rightarrow> ScheduleWindow \<Rightarrow> int \<Rightarrow> int \<Rightarrow> bool \<Rightarrow> int \<Rightarrow> int list
      \<Rightarrow> date \<Rightarrow> int \<Rightarrow> datetime \<Rightarrow> nat \<Rightarrow> py_error + ScheduledAction list" where
  "email_loop g window emails_per_day stagger_minutes personalization_required i []
       current_date daily_count current_time k = Inr []"
| "email_loop g window emails_per_day stagger_minutes personalization_required i
       (aid # rest) current_date daily_count current_time k =
     (if current_date > dt_date (end' window) then Inr []
      else
        let current_time = skip_weekend current_time
        in if emails_per_day = 0 then Inl ZeroDivisionError
           else
             let scheduled_action =
                   \<lparr>action_id = aid,
                    action_type = ''email'',
                    scheduled_start = current_time,
                    scheduled_end = current_time + td_hours 1,
                    priority = max 1 (5 - (i div emails_per_day)),
                    batch_id = Some (''email-batch-'' @ date_isoformat current_date),
                    notes' = (if personalization_required then Some PERSONALIZE_NOTE
                              else None)\<rparr>;
                 daily_count = daily_count + 1
             in if daily_count \<ge> emails_per_day
                then
                  let current_date = current_date + 1;
                      current_time = dt_combine current_date 9 (randint g k 0 30)
                  in emit scheduled_action
                       (email_loop g window emails_per_day stagger_minutes
                          personalization_required (i + 1) rest
                          current_date 0 current_time (k + 1))
                else
                  let current_time =
                        current_time + td_minutes (stagger_minutes + randint g k 0 10)
                  in if dt_hour current_time \<ge> 18
                     then
                       let current_date = current_date + 1;
                           current_time = dt_combine current_date 9 (randint g (k + 1) 0 30)
                       in emit scheduled_action
                            (email_loop g window emails_per_day stagger_minutes
                               personalization_required (i + 1) rest
                               current_date daily_count current_time (k + 2))
                     else emit scheduled_action
                            (email_loop g window emails_per_day stagger_minutes
                               personalization_required (i + 1) rest
                               current_date daily_count current_time (k + 1)))"

text \<open>\<open>schedule_email_campaign\<close>: \<open>None\<close> when the call does not return, \<open>Some (Inl e)\<close>
  when it raises \<open>e\<close>, \<open>Some (Inr placements)\<close> when it returns.\<close>

definition schedule_email_campaign ::
    "rng \<Rightarrow> int list \<Rightarrow> ScheduleWindow \<Rightarrow> int \<Rightarrow> int \<Rightarrow> bool
      \<Rightarrow> (py_error + ScheduledAction list) option" where
  "schedule_email_campaign g action_ids window emails_per_day stagger_minutes
       personalization_required =
     (case next_business_hour (start window) window of
        None \<Rightarrow> None
      | Some current_time \<Rightarrow>
          Some (email_loop g window emails_per_day stagger_minutes
                  personalization_required 0 action_ids
                  (dt_date (start window)) 0 current_time 0))"

section \<open>BurstStrategy\<close>


text \<open>Rounding of the quotient \<open>a / b\<close> (\<open>b > 0\<close>) to the nearest integer, ties to even:
  how \<open>timedelta\<close> rounds a fractional number of microseconds.\<close>

definition round_half_even :: "int \<Rightarrow> int \<Rightarrow> int" where
  "round_half_even a b =
     (let q = a div b; r = a mod b
      in if 2 * r < b then q
         else if 2 * r > b then q + 1
         else if even q then q else q + 1)"

subsection \<open>Double-precision arithmetic\<close>

text \<open>
  The interval between two posts and the offset of each post are computed in binary
  floating point. All the numbers involved are non-negative; a non-negative double is
  modelled by a pair \<open>(m, e)\<close> of integers that stands for \<open>m * 2 ^ e\<close>. The exponent is
  unbounded: overflow and subnormal numbers are not modelled (in a burst every number
  lies between \<open>10 / N\<close> and \<open>30\<close> minutes, or below \<open>60000000\<close> microseconds, far inside the
  range of normal numbers for every list that fits in memory).
\<close>

type_synonym pyfloat = "int \<times> int"

text \<open>\<open>int.bit_length\<close>: the number of binary digits of a positive integer.\<close>

function bit_length :: "int \<Rightarrow> int" where
  "bit_length n = (if n \<le> 0 then 0 else 1 + bit_length (n div 2))"
  by pat_completeness auto

termination bit_length
  by (relation "measure nat") auto

declare bit_length.simps [simp del]

text \<open>\<open>floor_log2 a b\<close> is the integer \<open>k\<close> with \<open>2 ^ k \<le> a / b < 2 ^ (k + 1)\<close>, for positive
  \<open>a\<close> and \<open>b\<close>.\<close>

definition floor_log2 :: "int \<Rightarrow> int \<Rightarrow> int" where
  "floor_log2 a b =
     (let k = bit_length a - bit_length b
      in if (if 0 \<le> k then b * 2 ^ nat k \<le> a else b \<le> a * 2 ^ nat (- k))
         then k else k - 1)"

text \<open>\<open>to_float a b e\<close> is the double nearest to \<open>a / b * 2 ^ e\<close> (\<open>a \<ge> 0\<close>, \<open>b > 0\<close>), ties
  to even: the quotient is scaled to a 53-bit significand and rounded to an integer.\<close>

definition to_float :: "int \<Rightarrow> int \<Rightarrow> int \<Rightarrow> pyfloat" where
  "to_float a b e =
     (if a = 0 then (0, 0)
      else let t = 52 - floor_log2 a b;
               m = (if 0 \<le> t then round_half_even (a * 2 ^ nat t) b
                    else round_half_even a (b * 2 ^ nat (- t)))
           in (m, e - t))"

text \<open>\<open>float(i)\<close>, the true division \<open>a / b\<close> of two integers, and the product of two
  doubles: each is the correctly rounded image of the exact result.\<close>

definition float_of_int :: "int \<Rightarrow> pyfloat" where
  "float_of_int i = to_float i 1 0"

definition int_truediv :: "int \<Rightarrow> int \<Rightarrow> pyfloat" where
  "int_truediv a b = to_float a b 0"

definition float_mul :: "pyfloat \<Rightarrow> pyfloat \<Rightarrow> pyfloat" where
  "float_mul x y = to_float (fst x * fst y) 1 (snd x + snd y)"

text \<open>\<open>math.modf\<close> of a non-negative double: its whole part, as an integer, and its
  fractional part, both exact.\<close>

definition float_floor :: "pyfloat \<Rightarrow> int" where
  "float_floor x = (if 0 \<le> snd x then fst x * 2 ^ nat (snd x) else fst x div 2 ^ nat (- snd x))"

definition float_frac :: "pyfloat \<Rightarrow> pyfloat" where
  "float_frac x = (if 0 \<le> snd x then (0, 0) else (fst x mod 2 ^ nat (- snd x), snd x))"

text \<open>Rounding of a double to the nearest integer, ties to even.\<close>

definition float_round_half_even :: "pyfloat \<Rightarrow> int" where
  "float_round_half_even x =
     (if 0 \<le> snd x then fst x * 2 ^ nat (snd x)
      else round_half_even (fst x) (2 ^ nat (- snd x)))"

text \<open>
  \<open>timedelta(minutes=x)\<close> for a non-negative double \<open>x\<close>. The library splits \<open>x\<close> into its
  whole and fractional part; the whole minutes are converted exactly, the fractional part
  is multiplied by \<open>60000000.0\<close> in floating point and the product is rounded to a whole
  number of microseconds, ties to even.
\<close>

definition td_minutes_float :: "pyfloat \<Rightarrow> int" where
  "td_minutes_float x =
     float_floor x * 60000000
     + float_round_half_even (float_mul (float_of_int 60000000) (float_frac x))"

text \<open>The real number that a double stands for.\<close>

definition float_val :: "pyfloat \<Rightarrow> real" where
  "float_val x = real_of_int (fst x) * 2 powi (snd x)"

subsection \<open>The burst\<close>



section \<open>PhaseSequencer\<close>

text \<open>A phase descriptor: the dictionary with the keys \<open>phase\<close>, \<open>name\<close>,
  \<open>duration_weeks\<close> and \<open>tactics\<close> that the campaign builder produces.\<close>

record Phase =
  phase :: int
  name :: string
  duration_weeks :: int
  tactics :: "string list"

text \<open>The \<open>for j, action_id in enumerate(daily_actions)\<close> loop: one placement per
  action of the day, one random minute each.\<close>

fun daily_loop ::
    "rng \<Rightarrow> Phase \<Rightarrow> date \<Rightarrow> nat \<Rightarrow> int list \<Rightarrow> nat \<Rightarrow> ScheduledAction list" where
  "daily_loop g ph current_date j [] k = []"
| "daily_loop g ph current_date j (aid # rest) k =
     (let action_time = dt_combine current_date (9 + (int j mod 8)) (randint g k 0 59)
      in \<lparr>action_id = aid,
          action_type = ''mixed'',
          scheduled_start = action_time,
          scheduled_end = action_time + td_hours 2,
          priority = phase ph,
          batch_id = Some (''phase-'' @ str_int (phase ph) @ ''-''
                             @ date_isoformat current_date),
          notes' = Some (''Escalation Phase '' @ str_int (phase ph) @ '': '' @ name ph)\<rparr>
         # daily_loop g ph current_date (j + 1) rest (k + 1))"

text \<open>
  The \<open>for day_offset in range(days_in_phase)\<close> loop, over the day offsets still to
  visit. A weekend day is skipped (\<open>continue\<close>); the loop stops (\<open>break\<close>) once
  \<open>action_idx\<close> has reached the number of the phase's actions. Returns the placements and
  the position in the stream of random draws.
\<close>

fun day_loop ::
    "rng \<Rightarrow> Phase \<Rightarrow> date \<Rightarrow> int list \<Rightarrow> nat \<Rightarrow> nat list \<Rightarrow> nat \<Rightarrow> nat
      \<Rightarrow> ScheduledAction list \<times> nat" where
  "day_loop g ph phase_start phase_actions actions_per_day [] action_idx k = ([], k)"
| "day_loop g ph phase_start phase_actions actions_per_day (day_offset # rest) action_idx k =
     (let current_date = phase_start + int day_offset
      in if date_weekday current_date \<ge> 5
         then day_loop g ph phase_start phase_actions actions_per_day rest action_idx k
         else
           let daily_actions = take actions_per_day (drop action_idx phase_actions);
               action_idx = action_idx + length daily_actions;
               placed = daily_loop g ph current_date 0 daily_actions k;
               k = k + length daily_actions
           in if action_idx \<ge> length phase_actions then (placed, k)
              else (case day_loop g ph phase_start phase_actions actions_per_day rest
                           action_idx k of
                      (later, k') \<Rightarrow> (placed @ later, k')))"

text \<open>The window record that the source builds for a phase (and never reads again).\<close>

definition phase_window :: "date \<Rightarrow> date \<Rightarrow> ScheduleWindow" where
  "phase_window phase_start phase_end =
     default_window (dt_combine phase_start 9 0) (dt_combine phase_end 17 0)"

text \<open>The body of the \<open>for phase in phases\<close> loop for a phase with at least one action.\<close>

definition schedule_phase ::
    "rng \<Rightarrow> Phase \<Rightarrow> date \<Rightarrow> int list \<Rightarrow> nat \<Rightarrow> ScheduledAction list \<times> nat" where
  "schedule_phase g ph phase_start phase_actions k =
     (let phase_end = phase_start + 7 * duration_weeks ph;
          days_in_phase = max 1 (phase_end - phase_start);
          actions_per_day = max 1 (int (length phase_actions) div days_in_phase)
      in day_loop g ph phase_start phase_actions (nat actions_per_day)
           [0..<nat days_in_phase] 0 k)"

fun phase_loop ::
    "rng \<Rightarrow> (int \<rightharpoonup> int list) \<Rightarrow> Phase list \<Rightarrow> date \<Rightarrow> nat \<Rightarrow> ScheduledAction list" where
  "phase_loop g actions_per_phase [] phase_start k = []"
| "phase_loop g actions_per_phase (ph # phases) phase_start k =
     (let phase_actions = (case actions_per_phase (phase ph) of
                             Some ids \<Rightarrow> ids | None \<Rightarrow> [])
      in if phase_actions = []
         then phase_loop g actions_per_phase phases
                (phase_start + 7 * duration_weeks ph) k
         else (case schedule_phase g ph phase_start phase_actions k of
                 (placed, k') \<Rightarrow>
                   placed @ phase_loop g actions_per_phase phases
                              (phase_start + 7 * duration_weeks ph) k'))"

definition schedule_escalation_sequence ::
    "rng \<Rightarrow> Phase list \<Rightarrow> date \<Rightarrow> (int \<rightharpoonup> int list) \<Rightarrow> ScheduledAction list" where
  "schedule_escalation_sequence g phases campaign_start actions_per_phase =
     phase_loop g actions_per_phase phases campaign_start 0"

text \<open>The placements of the phase numbered \<open>n\<close> in a schedule: every placement of a
  phase carries the phase number as its priority.\<close>

definition phase_placements :: "int \<Rightarrow> ScheduledAction list \<Rightarrow> ScheduledAction list" where
  "phase_placements n scheduled = filter (\<lambda>p. priority p = n) scheduled"

section \<open>RampStrategy\<close>









section \<open>ScheduleSummary\<close>

text \<open>A dictionary of counts, in insertion order: \<open>d[key] = d.get(key, 0) + 1\<close>.\<close>

fun bump :: "(string \<times> nat) list \<Rightarrow> string \<Rightarrow> (string \<times> nat) list" where
  "bump [] key = [(key, 1)]"
| "bump ((key', c) # d) key =
     (if key' = key then (key', c + 1) # d else (key', c) # bump d key)"

text \<open>The counting loop over the placements; the state is \<open>(by_date, by_type, by_batch)\<close>.\<close>

fun count_loop ::
    "ScheduledAction list
      \<Rightarrow> (string \<times> nat) list \<times> (string \<times> nat) list \<times> (string \<times> nat) list
      \<Rightarrow> (string \<times> nat) list \<times> (string \<times> nat) list \<times> (string \<times> nat) list" where
  "count_loop [] st = st"
| "count_loop (sa # rest) (by_date, by_type, by_batch) =
     (let date_key = date_isoformat (dt_date (scheduled_start sa));
          by_date = bump by_date date_key;
          by_type = bump by_type (action_type sa);
          by_batch = (case batch_id sa of
                        None \<Rightarrow> by_batch
                      | Some b \<Rightarrow> if b \<noteq> [] then bump by_batch b else by_batch)
      in count_loop rest (by_date, by_type, by_batch))"

text \<open>\<open>min\<close> and \<open>max\<close> of a non-empty list, and \<open>max(d, key=d.get)\<close>: the first key,
  in insertion order, among those with the greatest count.\<close>

fun list_min :: "int list \<Rightarrow> int" where
  "list_min (x # xs) = fold min xs x"
| "list_min [] = undefined"

fun list_max :: "nat list \<Rightarrow> nat" where
  "list_max (x # xs) = fold max xs x"
| "list_max [] = undefined"

fun list_max_int :: "int list \<Rightarrow> int" where
  "list_max_int (x # xs) = fold max xs x"
| "list_max_int [] = undefined"

fun argmax_key :: "(string \<times> nat) list \<Rightarrow> string" where
  "argmax_key (kv # d) =
     fst (fold (\<lambda>kv' best. if snd kv' > snd best then kv' else best) d kv)"
| "argmax_key [] = undefined"

text \<open>The values found in the summary dictionary.\<close>

datatype summary_value = VInt int | VStr string | VDict "(string \<times> nat) list"

definition get_schedule_summary ::
    "ScheduledAction list \<Rightarrow> (string \<times> summary_value) list" where
  "get_schedule_summary scheduled_actions =
     (if scheduled_actions = [] then [(''total'', VInt 0)]
      else
        case count_loop scheduled_actions ([], [], []) of
          (by_date, by_type, by_batch) \<Rightarrow>
            let dates = map scheduled_start scheduled_actions
            in [(''total'', VInt (int (length scheduled_actions))),
                (''start'', VStr (dt_isoformat (list_min dates))),
                (''end'', VStr (dt_isoformat (list_max_int dates))),
                (''duration_days'',
                   VInt (td_days_of (list_max_int dates - list_min dates))),
                (''by_date'', VDict by_date),
                (''by_type'', VDict by_type),
                (''by_batch'', VDict by_batch),
                (''peak_date'', VStr (argmax_key by_date)),
                (''peak_count'', VInt (int (list_max (map snd by_date))))])"

text \<open>Reading the summary: the value under a key, and the counts of one of its
  dictionaries (none when the key is absent).\<close>

definition summary_get :: "(string \<times> summary_value) list \<Rightarrow> string \<Rightarrow> summary_value option" where
  "summary_get s key = map_of s key"

definition summary_counts :: "(string \<times> summary_value) list \<Rightarrow> string \<Rightarrow> nat list" where
  "summary_counts s key =
     (case map_of s key of Some (VDict d) \<Rightarrow> map snd d | _ \<Rightarrow> [])"

section \<open>Properties of the BusinessClock\<close>













section \<open>Properties of the ScheduleSummary\<close>

lemma sum_list_bump: "sum_list (map snd (bump d key)) = sum_list (map snd d) + 1"
  by (induction d) auto

lemma count_loop_sums:
  "count_loop xs (by_date, by_type, by_batch) = (by_date', by_type', by_batch') \<Longrightarrow>
   sum_list (map snd by_date') = sum_list (map snd by_date) + length xs
   \<and> sum_list (map snd by_type') = sum_list (map snd by_type) + length xs"
proof (induction xs arbitrary: by_date by_type by_batch)
  case Nil
  then show ?case by simp
next
  case (Cons sa xs)
  from Cons.prems obtain bb where
    "count_loop xs (bump by_date (date_isoformat (dt_date (scheduled_start sa))),
                    bump by_type (action_type sa), bb) = (by_date', by_type', by_batch')"
    by (simp add: Let_def)
  from Cons.IH [OF this] show ?case
    by (simp add: sum_list_bump)
qed

text \<open>
  Claim C9. The summary of the empty list has \<open>total = 0\<close> and no peak date. For every
  placement list, \<open>total\<close> is the length of the list, and the counts of \<open>by_type\<close> and
  those of \<open>by_date\<close> each sum to it; for a non-empty list both dictionaries are present
  in the summary, and they are the ones the counting loop built.
\<close>

theorem get_schedule_summary_totals:
  "summary_get (get_schedule_summary []) ''total'' = Some (VInt 0)
   \<and> summary_get (get_schedule_summary []) ''peak_date'' = None
   \<and> summary_get (get_schedule_summary xs) ''total'' = Some (VInt (int (length xs)))
   \<and> sum_list (summary_counts (get_schedule_summary xs) ''by_type'') = length xs
   \<and> sum_list (summary_counts (get_schedule_summary xs) ''by_date'') = length xs
   \<and> summary_get (get_schedule_summary (x # xs)) ''by_date''
       = Some (VDict (fst (count_loop (x # xs) ([], [], []))))
   \<and> summary_get (get_schedule_summary (x # xs)) ''by_type''
       = Some (VDict (fst (snd (count_loop (x # xs) ([], [], [])))))"
proof -
  have empty: "get_schedule_summary [] = [(''total'', VInt 0)]"
    by (simp add: get_schedule_summary_def)
  have total: "summary_get (get_schedule_summary xs) ''total'' = Some (VInt (int (length xs)))"
    by (cases "count_loop xs ([], [], [])")
       (simp add: get_schedule_summary_def summary_get_def Let_def)
  have sums: "sum_list (summary_counts (get_schedule_summary xs) ''by_type'') = length xs
      \<and> sum_list (summary_counts (get_schedule_summary xs) ''by_date'') = length xs"
  proof (cases "xs = []")
    case True
    then show ?thesis by (simp add: empty summary_counts_def)
  next
    case False
    obtain bd bt bb where c: "count_loop xs ([], [], []) = (bd, bt, bb)"
      by (cases "count_loop xs ([], [], [])") auto
    from count_loop_sums [OF c] False c show ?thesis
      by (simp add: get_schedule_summary_def summary_counts_def Let_def)
  qed
  have present: "summary_get (get_schedule_summary (x # xs)) ''by_date''
       = Some (VDict (fst (count_loop (x # xs) ([], [], []))))
     \<and> summary_get (get_schedule_summary (x # xs)) ''by_type''
       = Some (VDict (fst (snd (count_loop (x # xs) ([], [], [])))))"
    by (cases "count_loop (x # xs) ([], [], [])")
       (simp add: get_schedule_summary_def summary_get_def Let_def)
  show ?thesis
    using total sums present by (simp add: empty summary_get_def)
qed

section \<open>Properties of the BurstStrategy\<close>





subsection \<open>Rounding to double precision\<close>

lemma p2_add: "(2::real) powi m * 2 powi n = 2 powi (m + n)"
  by (simp add: power_int_add)

lemma p2_pos: "0 < (2::real) powi n"
  by simp

lemma p2_nat: "0 \<le> n \<Longrightarrow> (2::real) powi n = real_of_int (2 ^ nat n)"
  by (simp add: power_int_nonneg_exp)




lemma bit_length_nonneg: "0 \<le> bit_length n"
proof (induction n rule: bit_length.induct)
  case (1 n)
  then show ?case by (subst bit_length.simps) simp
qed

lemma bit_length_bounds:
  "0 < n \<Longrightarrow> 2 ^ nat (bit_length n - 1) \<le> n \<and> n < 2 ^ nat (bit_length n)"
proof (induction n rule: bit_length.induct)
  case (1 n)
  have bl: "bit_length n = 1 + bit_length (n div 2)"
    using 1(2) by (subst bit_length.simps) simp
  show ?case
  proof (cases "n = 1")
    case True
    have "bit_length (1 div 2) = 0" by (subst bit_length.simps) simp
    then show ?thesis using True bl by simp
  next
    case False
    define h where "h = n div 2"
    define L where "L = bit_length h"
    have pos: "0 < h" unfolding h_def using False 1(2) by simp
    have IH: "2 ^ nat (L - 1) \<le> h \<and> h < 2 ^ nat L"
      unfolding L_def h_def using 1(1) 1(2) pos unfolding h_def by simp
    have "bit_length h = 1 + bit_length (h div 2)"
      using pos by (subst bit_length.simps) simp
    then have L1: "1 \<le> L" unfolding L_def using bit_length_nonneg [of "h div 2"] by simp
    have n: "2 * h \<le> n" "n \<le> 2 * h + 1" unfolding h_def by linarith+
    have s1: "nat L = Suc (nat (L - 1))" using L1 by simp
    have s2: "nat (1 + L) = Suc (nat L)" using L1 by simp
    have bl': "bit_length n = 1 + L" unfolding L_def h_def by (rule bl)
    have lo: "(2::int) ^ nat L \<le> n"
    proof -
      have "(2::int) ^ nat L = 2 * 2 ^ nat (L - 1)" by (simp add: s1)
      then show ?thesis using IH n by linarith
    qed
    have hi: "n < (2::int) ^ nat (1 + L)"
    proof -
      have "(2::int) ^ nat (1 + L) = 2 * 2 ^ nat L" by (simp add: s2)
      then show ?thesis using IH n by linarith
    qed
    show ?thesis using lo hi by (simp add: bl')
  qed
qed

lemma bit_length_real:
  assumes "0 < n"
  shows "(2::real) powi (bit_length n - 1) \<le> real_of_int n"
    and "real_of_int n < 2 powi (bit_length n)"
proof -
  have "bit_length n = 1 + bit_length (n div 2)"
    using assms by (subst bit_length.simps) simp
  then have L: "0 \<le> bit_length n - 1" using bit_length_nonneg [of "n div 2"] by simp
  from bit_length_bounds [OF assms]
  have a: "real_of_int (2 ^ nat (bit_length n - 1)) \<le> real_of_int n"
    and b: "real_of_int n < real_of_int (2 ^ nat (bit_length n))"
    by (simp_all only: of_int_le_iff of_int_less_iff)
  show "(2::real) powi (bit_length n - 1) \<le> real_of_int n"
    using a by (simp only: p2_nat [OF L])
  have L': "0 \<le> bit_length n" by (rule bit_length_nonneg)
  show "real_of_int n < 2 powi (bit_length n)"
    using b by (simp only: p2_nat [OF L'])
qed


lemma floor_log2_less:
  assumes "0 < a" "0 < b"
  shows "real_of_int a < real_of_int b * 2 powi (floor_log2 a b + 1)"
proof -
  define k where "k = bit_length a - bit_length b"
  define C where "C \<longleftrightarrow> (if 0 \<le> k then b * 2 ^ nat k \<le> a else b \<le> a * 2 ^ nat (- k))"
  have fl: "floor_log2 a b = (if C then k else k - 1)"
    unfolding floor_log2_def C_def k_def Let_def by simp
  have "floor_log2 a b = k
      \<or> (floor_log2 a b = k - 1 \<and> 0 \<le> k \<and> a < b * 2 ^ nat k)
      \<or> (floor_log2 a b = k - 1 \<and> k < 0 \<and> a * 2 ^ nat (- k) < b)"
    unfolding fl C_def by (cases "0 \<le> k") auto
  then consider (up) "floor_log2 a b = k"
    | (ge) "floor_log2 a b = k - 1" "0 \<le> k" "a < b * 2 ^ nat k"
    | (lt) "floor_log2 a b = k - 1" "k < 0" "a * 2 ^ nat (- k) < b"
    by blast
  then show ?thesis
  proof cases
    case up
    have "real_of_int a < 2 powi (bit_length a)" by (rule bit_length_real(2) [OF assms(1)])
    also have "\<dots> = 2 powi (bit_length b - 1) * 2 powi (k + 1)"
      by (simp add: p2_add k_def)
    also have "\<dots> \<le> real_of_int b * 2 powi (k + 1)"
      using bit_length_real(1) [OF assms(2)] by (intro mult_right_mono) simp_all
    finally show ?thesis using up by simp
  next
    case ge
    have "real_of_int a < real_of_int (b * 2 ^ nat k)"
      using ge(3) by (simp only: of_int_less_iff)
    then show ?thesis using ge(1,2) by (simp add: p2_nat)
  next
    case lt
    have "real_of_int (a * 2 ^ nat (- k)) < real_of_int b"
      using lt(3) by (simp only: of_int_less_iff)
    then have "real_of_int a * 2 powi (- k) < real_of_int b"
      using lt(2) by (simp add: p2_nat)
    then have "real_of_int a * 2 powi (- k) * 2 powi k < real_of_int b * 2 powi k"
      by (intro mult_strict_right_mono) simp_all
    then show ?thesis using lt(1) by (simp add: mult.assoc p2_add)
  qed
qed

lemma to_float_zero [simp]: "to_float 0 b e = (0, 0)"
  by (simp add: to_float_def)



lemma float_val_pair [simp]: "float_val (m, e) = real_of_int m * 2 powi e"
  by (simp add: float_val_def)
























text \<open>Two offsets as the library computes them: the second post of seven in a 10-minute
  window, and the sixth of 3072, where the product \<open>10 / 3072 * 5\<close> minutes is a whole
  number of microseconds and a half.\<close>

lemma td_minutes_float_seventh_run:
  "td_minutes_float (float_mul (int_truediv 10 7) (float_of_int 1)) = 85714286"
  by code_simp

lemma td_minutes_float_tie_run:
  "td_minutes_float (float_mul (int_truediv 10 3072) (float_of_int 5)) = 976563"
  by code_simp

subsection \<open>Placement of the posts\<close>







section \<open>Concrete runs\<close>

text \<open>
  Two e-mails, one per day, in a window from Friday 2026-03-06 09:00 to Saturday
  2026-03-07 17:00: the second e-mail is placed on Monday 2026-03-09.
\<close>

lemma email_friday_saturday_run:
  "map_option (map_sum id (map (\<lambda>p. (action_id p, scheduled_start p))))
     (schedule_email_campaign (\<lambda>k. 0) [1, 2]
        (default_window (mk_datetime 2026 3 6 9 0) (mk_datetime 2026 3 7 17 0)) 1 15 True)
   = Some (Inr [(1, mk_datetime 2026 3 6 9 0), (2, mk_datetime 2026 3 9 9 0)])"
  by code_simp

text \<open>Ten actions in a phase of one week that starts on Monday 2026-03-02: one
  action on each of the five weekdays.\<close>

lemma escalation_one_week_run:
  "map (\<lambda>p. (action_id p, scheduled_start p))
     (schedule_escalation_sequence (\<lambda>k. 0)
        [\<lparr>phase = 1, name = ''A'', duration_weeks = 1, tactics = []\<rparr>]
        (ymd2ord 2026 3 2) [1 \<mapsto> [1, 2, 3, 4, 5, 6, 7, 8, 9, 10]])
   = [(1, mk_datetime 2026 3 2 9 0), (2, mk_datetime 2026 3 3 9 0),
      (3, mk_datetime 2026 3 4 9 0), (4, mk_datetime 2026 3 5 9 0),
      (5, mk_datetime 2026 3 6 9 0)]"
  by code_simp

lemma run_result:
  "map_option (map_sum id (map f)) r = Some (Inr l) \<Longrightarrow> \<exists>ps. r = Some (Inr ps) \<and> map f ps = l"
  by (cases r; cases "the r") auto

section \<open>Placements avoid the weekend\<close>

lemma randint_range: "a \<le> b \<Longrightarrow> a \<le> randint g k a b \<and> randint g k a b \<le> b"
proof -
  assume ab: "a \<le> b"
  define n where "n = nat (b - a + 1)"
  have n: "int n = b - a + 1" "0 < n" using ab by (simp_all add: n_def)
  have "g k mod n < n" using n(2) by simp
  then have "int (g k mod n) < b - a + 1" using n(1) by linarith
  then show ?thesis by (simp add: randint_def n_def [symmetric])
qed

lemma emit_Inr: "emit a r = Inr ps \<longleftrightarrow> (\<exists>ps'. r = Inr ps' \<and> ps = a # ps')"
  by (cases r) (auto simp add: emit_def)

lemma skip_weekend_weekday: "dt_weekday (skip_weekend t) < 5"
proof (induction t rule: skip_weekend.induct)
  case (1 t)
  show ?case
  proof (cases "dt_weekday t \<ge> 5")
    case True
    with 1 show ?thesis by (subst skip_weekend.simps) simp
  next
    case False
    then show ?thesis by (subst skip_weekend.simps) simp
  qed
qed

lemma email_loop_no_weekend:
  "email_loop g w epd sm pers i ids cd dc ct k = Inr ps \<Longrightarrow> p \<in> set ps \<Longrightarrow>
   dt_weekday (scheduled_start p) < 5"
proof (induction ids arbitrary: i cd dc ct k ps)
  case Nil
  then show ?case by simp
next
  case (Cons aid rest)
  show ?case
  proof (cases "cd > dt_date (end' w) \<or> epd = 0")
    case True
    then have "email_loop g w epd sm pers i (aid # rest) cd dc ct k = Inr []
        \<or> email_loop g w epd sm pers i (aid # rest) cd dc ct k = Inl ZeroDivisionError"
      by (cases "cd > dt_date (end' w)") (simp_all add: Let_def)
    with Cons.prems show ?thesis by auto
  next
    case False
    from False Cons.prems(1) obtain sa ps' i' cd' dc' ct' k' where
      ps: "ps = sa # ps'" and sa: "scheduled_start sa = skip_weekend ct"
      and rest: "email_loop g w epd sm pers i' rest cd' dc' ct' k' = Inr ps'"
      by (auto simp add: Let_def emit_Inr split: if_splits)
    show ?thesis
    proof (cases "p = sa")
      case True
      then show ?thesis by (simp add: sa skip_weekend_weekday)
    next
      case False
      with Cons.prems(2) ps have "p \<in> set ps'" by simp
      with rest show ?thesis by (rule Cons.IH)
    qed
  qed
qed

lemma daily_loop_start:
  "p \<in> set (daily_loop g ph d j ids k) \<Longrightarrow>
   \<exists>h m. scheduled_start p = dt_combine d h m \<and> 9 \<le> h \<and> h \<le> 16 \<and> 0 \<le> m \<and> m \<le> 59"
proof (induction ids arbitrary: j k)
  case Nil
  then show ?case by simp
next
  case (Cons aid rest)
  from Cons.prems consider
    "scheduled_start p = dt_combine d (9 + int j mod 8) (randint g k 0 59)"
    | "p \<in> set (daily_loop g ph d (j + 1) rest (k + 1))"
    by (auto simp add: Let_def)
  then show ?case
  proof cases
    case 1
    have "0 \<le> int j mod 8" "int j mod 8 < 8" by simp_all
    moreover have "0 \<le> randint g k 0 59 \<and> randint g k 0 59 \<le> 59"
      by (rule randint_range) simp
    ultimately show ?thesis using 1
      by (intro exI [of _ "9 + int j mod 8"] exI [of _ "randint g k 0 59"]) simp
  next
    case 2
    then show ?thesis by (rule Cons.IH)
  qed
qed

lemma day_loop_placement:
  "p \<in> set (fst (day_loop g ph phase_start acts apd offs idx k)) \<Longrightarrow>
   \<exists>off h m. off \<in> set offs \<and> date_weekday (phase_start + int off) < 5
      \<and> scheduled_start p = dt_combine (phase_start + int off) h m
      \<and> 9 \<le> h \<and> h \<le> 16 \<and> 0 \<le> m \<and> m \<le> 59"
proof (induction offs arbitrary: idx k)
  case Nil
  then show ?case by simp
next
  case (Cons off rest)
  show ?case
  proof (cases "date_weekday (phase_start + int off) \<ge> 5")
    case True
    with Cons.prems have "p \<in> set (fst (day_loop g ph phase_start acts apd rest idx k))"
      by (simp add: Let_def)
    from Cons.IH [OF this] show ?thesis by auto
  next
    case False
    let ?daily = "take apd (drop idx acts)"
    let ?placed = "daily_loop g ph (phase_start + int off) 0 ?daily k"
    from False Cons.prems consider "p \<in> set ?placed"
      | "p \<in> set (fst (day_loop g ph phase_start acts apd rest
                          (idx + length ?daily) (k + length ?daily)))"
      by (auto simp add: Let_def split: if_splits prod.splits)
    then show ?thesis
    proof cases
      case 1
      from daily_loop_start [OF this] obtain h m where
        "scheduled_start p = dt_combine (phase_start + int off) h m"
        "9 \<le> h" "h \<le> 16" "0 \<le> m" "m \<le> 59"
        by blast
      then show ?thesis using False
        by (intro exI [of _ off] exI [of _ h] exI [of _ m]) simp
    next
      case 2
      from Cons.IH [OF this] show ?thesis by auto
    qed
  qed
qed

lemma day_loop_no_weekend:
  assumes "p \<in> set (fst (day_loop g ph phase_start acts apd offs idx k))"
  shows "dt_weekday (scheduled_start p) < 5"
proof -
  from day_loop_placement [OF assms] obtain off h m where
    "date_weekday (phase_start + int off) < 5"
    "scheduled_start p = dt_combine (phase_start + int off) h m"
    "9 \<le> h" "h \<le> 16" "0 \<le> m" "m \<le> 59"
    by blast
  then show ?thesis by (simp add: dt_weekday_combine)
qed

lemma phase_loop_no_weekend:
  "p \<in> set (phase_loop g app phases phase_start k) \<Longrightarrow> dt_weekday (scheduled_start p) < 5"
proof (induction phases arbitrary: phase_start k)
  case Nil
  then show ?case by simp
next
  case (Cons ph phases)
  let ?acts = "case app (phase ph) of Some ids \<Rightarrow> ids | None \<Rightarrow> []"
  show ?case
  proof (cases "?acts = []")
    case True
    with Cons.prems
    have "p \<in> set (phase_loop g app phases (phase_start + 7 * duration_weeks ph) k)"
      by (simp add: Let_def)
    then show ?thesis by (rule Cons.IH)
  next
    case False
    obtain placed k' where sp: "schedule_phase g ph phase_start ?acts k = (placed, k')"
      by (cases "schedule_phase g ph phase_start ?acts k") auto
    with False Cons.prems consider "p \<in> set placed"
      | "p \<in> set (phase_loop g app phases (phase_start + 7 * duration_weeks ph) k')"
      by (auto simp add: Let_def)
    then show ?thesis
    proof cases
      case 1
      with sp have "p \<in> set (fst (day_loop g ph phase_start ?acts
          (nat (max 1 (int (length ?acts) div max 1 (phase_start + 7 * duration_weeks ph - phase_start))))
          [0..<nat (max 1 (phase_start + 7 * duration_weeks ph - phase_start))] 0 k))"
        by (simp add: schedule_phase_def Let_def)
      then show ?thesis by (rule day_loop_no_weekend)
    next
      case 2
      then show ?thesis by (rule Cons.IH)
    qed
  qed
qed

text \<open>
  Claim C4. No placement returned by \<open>schedule_email_campaign\<close>, and no placement
  returned by \<open>schedule_escalation_sequence\<close>, starts on a Saturday or a Sunday.
\<close>

theorem no_placement_on_weekend:
  "(\<forall>ps. schedule_email_campaign g action_ids window emails_per_day stagger_minutes
            personalization_required = Some (Inr ps) \<longrightarrow>
          (\<forall>p \<in> set ps. dt_weekday (scheduled_start p) < 5))
   \<and> (\<forall>p \<in> set (schedule_escalation_sequence g' phases campaign_start actions_per_phase).
          dt_weekday (scheduled_start p) < 5)"
proof -
  have "dt_weekday (scheduled_start p) < 5"
    if "schedule_email_campaign g action_ids window emails_per_day stagger_minutes
          personalization_required = Some (Inr ps)" and "p \<in> set ps" for ps p
  proof -
    from that(1) obtain t where
      "email_loop g window emails_per_day stagger_minutes personalization_required 0
         action_ids (dt_date (start window)) 0 t 0 = Inr ps"
      by (auto simp add: schedule_email_campaign_def split: option.splits)
    then show ?thesis using that(2) by (rule email_loop_no_weekend)
  qed
  moreover have "dt_weekday (scheduled_start p) < 5"
    if "p \<in> set (schedule_escalation_sequence g' phases campaign_start actions_per_phase)"
    for p
    using that unfolding schedule_escalation_sequence_def by (rule phase_loop_no_weekend)
  ultimately show ?thesis by blast
qed

theorem no_placement_on_weekend_witness:
  "(\<exists>ps. schedule_email_campaign (\<lambda>k. 0) [1, 2]
            (default_window (mk_datetime 2026 3 6 9 0) (mk_datetime 2026 3 7 17 0))
            1 15 True = Some (Inr ps)
        \<and> map (\<lambda>p. (action_id p, scheduled_start p)) ps
            = [(1, mk_datetime 2026 3 6 9 0), (2, mk_datetime 2026 3 9 9 0)]
        \<and> (\<forall>p \<in> set ps. dt_weekday (scheduled_start p) < 5))
   \<and> length (schedule_escalation_sequence (\<lambda>k. 0)
        [\<lparr>phase = 1, name = ''A'', duration_weeks = 1, tactics = []\<rparr>]
        (ymd2ord 2026 3 2) [1 \<mapsto> [1, 2, 3, 4, 5, 6, 7, 8, 9, 10]]) = 5
   \<and> list_all (\<lambda>p. dt_weekday (scheduled_start p) < 5)
        (schedule_escalation_sequence (\<lambda>k. 0)
           [\<lparr>phase = 1, name = ''A'', duration_weeks = 1, tactics = []\<rparr>]
           (ymd2ord 2026 3 2) [1 \<mapsto> [1, 2, 3, 4, 5, 6, 7, 8, 9, 10]])"
proof -
  let ?w = "default_window (mk_datetime 2026 3 6 9 0) (mk_datetime 2026 3 7 17 0)"
  let ?phases = "[\<lparr>phase = 1, name = ''A'', duration_weeks = 1, tactics = []\<rparr>]"
  let ?app = "[1 \<mapsto> [1, 2, 3, 4, 5, 6, 7, 8, 9, 10 :: int]]"
  note t = no_placement_on_weekend [of "\<lambda>k. 0" "[1, 2]" ?w 1 15 True
      "\<lambda>k. 0" ?phases "ymd2ord 2026 3 2" ?app]
  from run_result [OF email_friday_saturday_run] obtain ps where
    ps: "schedule_email_campaign (\<lambda>k. 0) [1, 2] ?w 1 15 True = Some (Inr ps)"
      "map (\<lambda>p. (action_id p, scheduled_start p)) ps
         = [(1, mk_datetime 2026 3 6 9 0), (2, mk_datetime 2026 3 9 9 0)]"
    by (elim exE conjE)
  note a = t [THEN conjunct1, rule_format, OF ps(1)]
  note b = t [THEN conjunct2, folded list_all_iff]
  have "length (map (\<lambda>p. (action_id p, scheduled_start p))
      (schedule_escalation_sequence (\<lambda>k. 0) ?phases (ymd2ord 2026 3 2) ?app)) = 5"
    unfolding escalation_one_week_run by simp
  then have c: "length (schedule_escalation_sequence (\<lambda>k. 0) ?phases
      (ymd2ord 2026 3 2) ?app) = 5"
    by (simp only: length_map)
  have d: "\<forall>p \<in> set ps. dt_weekday (scheduled_start p) < 5"
    using a by (intro ballI)
  show ?thesis
    by (intro conjI exI [of _ ps]) (rule ps d b c)+
qed

section \<open>Properties of the PhaseSequencer\<close>

lemma daily_loop_ids: "map action_id (daily_loop g ph d j ids k) = ids"
  by (induction ids arbitrary: j k) (simp_all add: Let_def)

lemma daily_loop_length: "length (daily_loop g ph d j ids k) = length ids"
  using daily_loop_ids [of g ph d j ids k] by (metis length_map)

lemma daily_loop_date:
  assumes "p \<in> set (daily_loop g ph d j ids k)"
  shows "dt_date (scheduled_start p) = d"
proof -
  from daily_loop_start [OF assms] obtain h m where
    "scheduled_start p = dt_combine d h m" "9 \<le> h" "h \<le> 16" "0 \<le> m" "m \<le> 59"
    by blast
  then show ?thesis by (simp add: dt_date_combine)
qed

text \<open>Unfolding of one pass of the day loop on a weekday.\<close>

lemma day_loop_weekend:
  "date_weekday (phase_start + int off) \<ge> 5 \<Longrightarrow>
   day_loop g ph phase_start acts apd (off # rest) idx k
     = day_loop g ph phase_start acts apd rest idx k"
  by (simp add: Let_def)

lemma day_loop_weekday:
  assumes "\<not> date_weekday (phase_start + int off) \<ge> 5"
    and "daily = take apd (drop idx acts)"
  shows "fst (day_loop g ph phase_start acts apd (off # rest) idx k)
     = daily_loop g ph (phase_start + int off) 0 daily k
       @ (if idx + length daily \<ge> length acts then []
          else fst (day_loop g ph phase_start acts apd rest
                      (idx + length daily) (k + length daily)))"
  using assms by (auto simp add: Let_def split: prod.splits)

lemma prefix_take_drop:
  assumes "prefix zs (drop n xs)"
  shows "prefix (take n xs @ zs) xs"
proof -
  from assms obtain ys where "drop n xs = zs @ ys" by (auto simp add: prefix_def)
  then have "xs = (take n xs @ zs) @ ys"
    by (metis append_take_drop_id append_assoc)
  then show ?thesis by (metis prefixI)
qed

lemma day_loop_ids_prefix:
  "prefix (map action_id (fst (day_loop g ph phase_start acts apd offs idx k)))
     (drop idx acts)"
proof (induction offs arbitrary: idx k)
  case Nil
  then show ?case by simp
next
  case (Cons off rest)
  show ?case
  proof (cases "date_weekday (phase_start + int off) \<ge> 5")
    case True
    then show ?thesis using Cons.IH by (simp only: day_loop_weekend)
  next
    case False
    let ?xs = "drop idx acts"
    let ?daily = "take apd ?xs"
    note unf = day_loop_weekday [OF False refl, of g ph acts apd rest idx k]
    show ?thesis
    proof (cases "idx + length ?daily \<ge> length acts")
      case True
      have "prefix ?daily ?xs" by (rule take_is_prefix)
      then show ?thesis
        unfolding unf using True by (simp add: daily_loop_ids)
    next
      case stop: False
      have "drop (idx + length ?daily) acts = drop apd ?xs"
        by (simp add: min_def add.commute)
      then have "prefix (map action_id (fst (day_loop g ph phase_start acts apd rest
          (idx + length ?daily) (k + length ?daily)))) (drop apd ?xs)"
        using Cons.IH [of "idx + length ?daily" "k + length ?daily"] by simp
      then have "prefix (?daily @ map action_id (fst (day_loop g ph phase_start acts apd rest
          (idx + length ?daily) (k + length ?daily)))) ?xs"
        by (rule prefix_take_drop)
      then show ?thesis
        unfolding unf using stop by (simp add: daily_loop_ids)
    qed
  qed
qed

lemma day_loop_dates:
  assumes "p \<in> set (fst (day_loop g ph phase_start acts apd offs idx k))"
  shows "\<exists>off \<in> set offs. dt_date (scheduled_start p) = phase_start + int off"
proof -
  from day_loop_placement [OF assms] obtain off h m where
    "off \<in> set offs" "scheduled_start p = dt_combine (phase_start + int off) h m"
    "9 \<le> h" "h \<le> 16" "0 \<le> m" "m \<le> 59"
    by blast
  then show ?thesis by (auto simp add: dt_date_combine)
qed

lemma day_loop_per_day:
  assumes "distinct offs"
  shows "length (filter (\<lambda>p. dt_date (scheduled_start p) = d)
            (fst (day_loop g ph phase_start acts apd offs idx k))) \<le> apd"
  using assms
proof (induction offs arbitrary: idx k)
  case Nil
  then show ?case by simp
next
  case (Cons off rest)
  from Cons.prems have dist: "distinct rest" and notin: "off \<notin> set rest" by simp_all
  show ?case
  proof (cases "date_weekday (phase_start + int off) \<ge> 5")
    case True
    then show ?thesis using Cons.IH [OF dist] by (simp only: day_loop_weekend)
  next
    case False
    define daily where "daily = take apd (drop idx acts)"
    define placed where "placed = daily_loop g ph (phase_start + int off) 0 daily k"
    define later where "later = fst (day_loop g ph phase_start acts apd rest
                      (idx + length daily) (k + length daily))"
    let ?on = "\<lambda>p. dt_date (scheduled_start p) = d"
    have unf: "fst (day_loop g ph phase_start acts apd (off # rest) idx k)
        = placed @ (if idx + length daily \<ge> length acts then [] else later)"
      unfolding placed_def later_def by (rule day_loop_weekday [OF False daily_def])
    have "length daily \<le> apd" by (simp add: daily_def)
    then have "length placed \<le> apd" by (simp add: placed_def daily_loop_length)
    moreover have "length (filter ?on placed) \<le> length placed" by (rule length_filter_le)
    ultimately have placed_len: "length (filter ?on placed) \<le> apd" by linarith
    have later_len: "length (filter ?on later) \<le> apd"
      unfolding later_def by (rule Cons.IH [OF dist])
    show ?thesis
    proof (cases "d = phase_start + int off")
      case True
      have "filter ?on later = []"
      proof (rule ccontr)
        assume "filter ?on later \<noteq> []"
        then obtain p where p: "p \<in> set later" "dt_date (scheduled_start p) = d"
          by (auto simp add: filter_empty_conv)
        from day_loop_dates [OF p(1) [unfolded later_def]] obtain off' where
          "off' \<in> set rest" "dt_date (scheduled_start p) = phase_start + int off'"
          by blast
        with p(2) True notin show False by auto
      qed
      then show ?thesis using placed_len unfolding unf by simp
    next
      case other: False
      have "filter ?on placed = []"
        using other unfolding placed_def
        by (auto simp add: filter_empty_conv dest: daily_loop_date)
      then show ?thesis using later_len unfolding unf by simp
    qed
  qed
qed

lemma day_loop_capacity:
  "length (fst (day_loop g ph phase_start acts apd offs idx k))
     \<le> apd * length (filter (\<lambda>off. date_weekday (phase_start + int off) < 5) offs)"
proof (induction offs arbitrary: idx k)
  case Nil
  then show ?case by simp
next
  case (Cons off rest)
  let ?cap = "length (filter (\<lambda>off. date_weekday (phase_start + int off) < 5) rest)"
  show ?case
  proof (cases "date_weekday (phase_start + int off) \<ge> 5")
    case True
    then show ?thesis using Cons.IH [of idx k] by (simp add: Let_def)
  next
    case False
    define daily where "daily = take apd (drop idx acts)"
    define placed where "placed = daily_loop g ph (phase_start + int off) 0 daily k"
    define later where "later = fst (day_loop g ph phase_start acts apd rest
                      (idx + length daily) (k + length daily))"
    have unf: "fst (day_loop g ph phase_start acts apd (off # rest) idx k)
        = placed @ (if idx + length daily \<ge> length acts then [] else later)"
      unfolding placed_def later_def by (rule day_loop_weekday [OF False daily_def])
    have "length daily \<le> apd" by (simp add: daily_def)
    then have p: "length placed \<le> apd" by (simp add: placed_def daily_loop_length)
    have l: "length later \<le> apd * ?cap"
      unfolding later_def by (rule Cons.IH)
    have "length (placed @ (if idx + length daily \<ge> length acts then [] else later))
        \<le> apd + apd * ?cap"
      using p l by simp
    then show ?thesis using False unfolding unf by simp
  qed
qed

text \<open>
  Claim C10. The placements of a phase are those of a prefix of the phase's assigned
  action ids, in order; no calendar day receives more than
  \<open>max(1, count // days_in_phase)\<close> of them; and their number is bounded by that many
  per weekday among the phase's \<open>days_in_phase\<close> calendar days. So assigned actions
  beyond that capacity get no placement: ten actions assigned to a phase of one week
  yield five placements.
\<close>

theorem schedule_phase_places_prefix:
  "prefix (map action_id (fst (schedule_phase g ph phase_start acts k))) acts
   \<and> length (filter (\<lambda>p. dt_date (scheduled_start p) = d)
               (fst (schedule_phase g ph phase_start acts k)))
       \<le> nat (max 1 (int (length acts) div max 1 (7 * duration_weeks ph)))
   \<and> length (fst (schedule_phase g ph phase_start acts k))
       \<le> nat (max 1 (int (length acts) div max 1 (7 * duration_weeks ph)))
           * length (filter (\<lambda>off. date_weekday (phase_start + int off) < 5)
                       [0..<nat (max 1 (7 * duration_weeks ph))])
   \<and> length (schedule_escalation_sequence (\<lambda>k. 0)
         [\<lparr>phase = 1, name = ''A'', duration_weeks = 1, tactics = []\<rparr>]
         (ymd2ord 2026 3 2) [1 \<mapsto> [1, 2, 3, 4, 5, 6, 7, 8, 9, 10]])
       < length [1, 2, 3, 4, 5, 6, 7, 8, 9, 10 :: int]"
proof -
  let ?days = "nat (max 1 (7 * duration_weeks ph))"
  let ?apd = "nat (max 1 (int (length acts) div max 1 (7 * duration_weeks ph)))"
  have sp: "schedule_phase g ph phase_start acts k
      = day_loop g ph phase_start acts ?apd [0..<?days] 0 k"
    by (simp add: schedule_phase_def Let_def)
  have a: "prefix (map action_id (fst (schedule_phase g ph phase_start acts k))) acts"
    using day_loop_ids_prefix [of g ph phase_start acts ?apd "[0..<?days]" 0 k]
    by (simp add: sp)
  have b: "length (filter (\<lambda>p. dt_date (scheduled_start p) = d)
               (fst (schedule_phase g ph phase_start acts k))) \<le> ?apd"
    unfolding sp by (rule day_loop_per_day) simp
  have c: "length (fst (schedule_phase g ph phase_start acts k))
       \<le> ?apd * length (filter (\<lambda>off. date_weekday (phase_start + int off) < 5)
                           [0..<?days])"
    unfolding sp by (rule day_loop_capacity)
  have "length (map (\<lambda>p. (action_id p, scheduled_start p))
      (schedule_escalation_sequence (\<lambda>k. 0)
         [\<lparr>phase = 1, name = ''A'', duration_weeks = 1, tactics = []\<rparr>]
         (ymd2ord 2026 3 2) [1 \<mapsto> [1, 2, 3, 4, 5, 6, 7, 8, 9, 10]])) = 5"
    unfolding escalation_one_week_run by simp
  then have e: "length (schedule_escalation_sequence (\<lambda>k. 0)
         [\<lparr>phase = 1, name = ''A'', duration_weeks = 1, tactics = []\<rparr>]
         (ymd2ord 2026 3 2) [1 \<mapsto> [1, 2, 3, 4, 5, 6, 7, 8, 9, 10]])
       < length [1, 2, 3, 4, 5, 6, 7, 8, 9, 10 :: int]"
    by simp
  show ?thesis
    by (intro conjI) (rule a b c e)+
qed

subsection \<open>Phase ordering\<close>

lemma dt_date_less: "dt_date a < dt_date b \<Longrightarrow> a < b"
proof (rule ccontr)
  assume lt: "dt_date a < dt_date b" and "\<not> a < b"
  then have "b \<le> a" by simp
  then have "b div US_PER_DAY \<le> a div US_PER_DAY"
    by (rule zdiv_mono1) (simp add: US_PER_DAY_def)
  with lt show False by (simp add: dt_date_def)
qed

lemma daily_loop_priority:
  "p \<in> set (daily_loop g ph d j ids k) \<Longrightarrow> priority p = phase ph"
  by (induction ids arbitrary: j k) (auto simp add: Let_def)

lemma day_loop_priority:
  "p \<in> set (fst (day_loop g ph phase_start acts apd offs idx k)) \<Longrightarrow> priority p = phase ph"
proof (induction offs arbitrary: idx k)
  case Nil
  then show ?case by simp
next
  case (Cons off rest)
  show ?case
  proof (cases "date_weekday (phase_start + int off) \<ge> 5")
    case True
    with Cons.prems have "p \<in> set (fst (day_loop g ph phase_start acts apd rest idx k))"
      by (simp only: day_loop_weekend)
    then show ?thesis by (rule Cons.IH)
  next
    case False
    define daily where "daily = take apd (drop idx acts)"
    from Cons.prems have "p \<in> set (daily_loop g ph (phase_start + int off) 0 daily k)
        \<or> p \<in> set (fst (day_loop g ph phase_start acts apd rest
                           (idx + length daily) (k + length daily)))"
      unfolding day_loop_weekday [OF False daily_def] by (auto split: if_splits)
    then show ?thesis using Cons.IH daily_loop_priority by blast
  qed
qed

text \<open>The placements of one phase: they carry the phase number, and their dates lie
  among the phase's \<open>days_in_phase\<close> calendar days.\<close>

lemma schedule_phase_placement:
  assumes "p \<in> set (fst (schedule_phase g ph phase_start acts k))"
  shows "priority p = phase ph \<and> phase_start \<le> dt_date (scheduled_start p)
       \<and> dt_date (scheduled_start p) < phase_start + max 1 (7 * duration_weeks ph)"
proof -
  let ?days = "nat (max 1 (7 * duration_weeks ph))"
  let ?apd = "nat (max 1 (int (length acts) div max 1 (7 * duration_weeks ph)))"
  have sp: "schedule_phase g ph phase_start acts k
      = day_loop g ph phase_start acts ?apd [0..<?days] 0 k"
    by (simp add: schedule_phase_def Let_def)
  from assms have mem: "p \<in> set (fst (day_loop g ph phase_start acts ?apd [0..<?days] 0 k))"
    by (simp only: sp)
  from day_loop_dates [OF mem] obtain off where
    "off < ?days" "dt_date (scheduled_start p) = phase_start + int off"
    by auto
  moreover have "int ?days = max 1 (7 * duration_weeks ph)" by simp
  ultimately have "phase_start \<le> dt_date (scheduled_start p)
       \<and> dt_date (scheduled_start p) < phase_start + max 1 (7 * duration_weeks ph)"
    by linarith
  then show ?thesis using day_loop_priority [OF mem] by simp
qed

lemma phase_loop_cases:
  assumes "p \<in> set (phase_loop g app (ph # phases) phase_start k)"
  shows "(\<exists>acts. p \<in> set (fst (schedule_phase g ph phase_start acts k)))
       \<or> (\<exists>k'. p \<in> set (phase_loop g app phases (phase_start + 7 * duration_weeks ph) k'))"
proof -
  let ?acts = "case app (phase ph) of Some ids \<Rightarrow> ids | None \<Rightarrow> []"
  show ?thesis
  proof (cases "?acts = []")
    case True
    with assms show ?thesis by (auto simp add: Let_def)
  next
    case False
    obtain placed k' where sp: "schedule_phase g ph phase_start ?acts k = (placed, k')"
      by (cases "schedule_phase g ph phase_start ?acts k") auto
    with False assms have "p \<in> set placed
        \<or> p \<in> set (phase_loop g app phases (phase_start + 7 * duration_weeks ph) k')"
      by (auto simp add: Let_def)
    then show ?thesis using sp by (metis fst_conv)
  qed
qed

lemma phase_loop_placement:
  assumes "\<forall>ph \<in> set phases. 1 \<le> duration_weeks ph"
    and "p \<in> set (phase_loop g app phases phase_start k)"
  shows "priority p \<in> phase ` set phases \<and> phase_start \<le> dt_date (scheduled_start p)"
  using assms
proof (induction phases arbitrary: phase_start k)
  case Nil
  then show ?case by simp
next
  case (Cons ph phases)
  from Cons.prems(1) have dw: "1 \<le> duration_weeks ph"
    and rest: "\<forall>ph \<in> set phases. 1 \<le> duration_weeks ph" by simp_all
  from phase_loop_cases [OF Cons.prems(2)] show ?case
  proof
    assume "\<exists>acts. p \<in> set (fst (schedule_phase g ph phase_start acts k))"
    then obtain acts where "p \<in> set (fst (schedule_phase g ph phase_start acts k))" ..
    from schedule_phase_placement [OF this] show ?thesis by simp
  next
    assume "\<exists>k'. p \<in> set (phase_loop g app phases (phase_start + 7 * duration_weeks ph) k')"
    then obtain k' where
      "p \<in> set (phase_loop g app phases (phase_start + 7 * duration_weeks ph) k')" ..
    from Cons.IH [OF rest this] dw show ?thesis by auto
  qed
qed

lemma phase_loop_ordered:
  assumes "sorted_wrt (<) (map phase phases)"
    and "\<forall>ph \<in> set phases. 1 \<le> duration_weeks ph"
    and "p \<in> set (phase_loop g app phases phase_start k)"
    and "q \<in> set (phase_loop g app phases phase_start k)"
    and "priority p < priority q"
  shows "scheduled_start p < scheduled_start q"
  using assms
proof (induction phases arbitrary: phase_start k)
  case Nil
  then show ?case by simp
next
  case (Cons ph phases)
  from Cons.prems(1) have later: "\<forall>n \<in> phase ` set phases. phase ph < n"
    and sorted: "sorted_wrt (<) (map phase phases)" by auto
  from Cons.prems(2) have dw: "1 \<le> duration_weeks ph"
    and rest: "\<forall>ph \<in> set phases. 1 \<le> duration_weeks ph" by simp_all
  let ?next = "phase_start + 7 * duration_weeks ph"
  have out_eq: "\<exists>placed k'. phase_loop g app (ph # phases) phase_start k
        = placed @ phase_loop g app phases ?next k'
      \<and> (\<forall>x \<in> set placed. priority x = phase ph \<and> dt_date (scheduled_start x) < ?next)"
  proof -
    let ?acts = "case app (phase ph) of Some ids \<Rightarrow> ids | None \<Rightarrow> []"
    show ?thesis
    proof (cases "?acts = []")
      case True
      then have "phase_loop g app (ph # phases) phase_start k
          = [] @ phase_loop g app phases ?next k"
        by (simp add: Let_def)
      then show ?thesis by (metis empty_iff list.set(1))
    next
      case False
      obtain placed k' where sp: "schedule_phase g ph phase_start ?acts k = (placed, k')"
        by (cases "schedule_phase g ph phase_start ?acts k") auto
      have "\<forall>x \<in> set placed. priority x = phase ph \<and> dt_date (scheduled_start x) < ?next"
      proof
        fix x assume "x \<in> set placed"
        then have "x \<in> set (fst (schedule_phase g ph phase_start ?acts k))"
          by (simp add: sp)
        from schedule_phase_placement [OF this] dw show
          "priority x = phase ph \<and> dt_date (scheduled_start x) < ?next"
          by auto
      qed
      moreover have "phase_loop g app (ph # phases) phase_start k
          = placed @ phase_loop g app phases ?next k'"
        using False sp by (simp add: Let_def)
      ultimately show ?thesis by blast
    qed
  qed
  then obtain placed k' where
    out: "phase_loop g app (ph # phases) phase_start k
        = placed @ phase_loop g app phases ?next k'"
    and placed: "\<forall>x \<in> set placed. priority x = phase ph \<and> dt_date (scheduled_start x) < ?next"
    by blast
  let ?rest = "phase_loop g app phases ?next k'"
  from Cons.prems(3,4) out have pq: "p \<in> set placed \<or> p \<in> set ?rest"
    "q \<in> set placed \<or> q \<in> set ?rest" by auto
  have in_rest: "priority x \<in> phase ` set phases \<and> ?next \<le> dt_date (scheduled_start x)"
    if "x \<in> set ?rest" for x
    using phase_loop_placement [OF rest that] .
  show ?case
  proof (cases "p \<in> set placed")
    case p_here: True
    show ?thesis
    proof (cases "q \<in> set placed")
      case True
      with p_here placed Cons.prems(5) show ?thesis by auto
    next
      case False
      with pq have "q \<in> set ?rest" by simp
      from in_rest [OF this] p_here placed
      have "dt_date (scheduled_start p) < dt_date (scheduled_start q)" by auto
      then show ?thesis by (rule dt_date_less)
    qed
  next
    case False
    with pq have p_rest: "p \<in> set ?rest" by simp
    show ?thesis
    proof (cases "q \<in> set placed")
      case True
      with placed have "priority q = phase ph" by simp
      moreover from in_rest [OF p_rest] later have "phase ph < priority p" by auto
      ultimately show ?thesis using Cons.prems(5) by simp
    next
      case False
      with pq have "q \<in> set ?rest" by simp
      with p_rest show ?thesis
        using Cons.IH [OF sorted rest _ _ Cons.prems(5)] by blast
    qed
  qed
qed

text \<open>
  Claim C6, as the code has it. When the phase numbers are in ascending order and every
  phase lasts at least one week, then for two phases \<open>i < j\<close> that both have placements
  in the schedule, the latest placement of phase \<open>i\<close> is not after the earliest
  placement of phase \<open>j\<close>.
\<close>

theorem escalation_phases_ordered:
  assumes "sorted_wrt (<) (map phase phases)"
    and "list_all (\<lambda>ph. 1 \<le> duration_weeks ph) phases"
    and "i < j"
    and "phase_placements i
           (schedule_escalation_sequence g phases campaign_start actions_per_phase) \<noteq> []"
    and "phase_placements j
           (schedule_escalation_sequence g phases campaign_start actions_per_phase) \<noteq> []"
  shows "Max (set (map scheduled_start (phase_placements i
           (schedule_escalation_sequence g phases campaign_start actions_per_phase))))
       \<le> Min (set (map scheduled_start (phase_placements j
           (schedule_escalation_sequence g phases campaign_start actions_per_phase))))"
proof -
  let ?out = "schedule_escalation_sequence g phases campaign_start actions_per_phase"
  let ?A = "set (map scheduled_start (phase_placements i ?out))"
  let ?B = "set (map scheduled_start (phase_placements j ?out))"
  have dw: "\<forall>ph \<in> set phases. 1 \<le> duration_weeks ph"
    using assms(2) by (simp add: list_all_iff)
  have ne: "?A \<noteq> {}" "?B \<noteq> {}" using assms(4,5) by simp_all
  have "a \<le> b" if "a \<in> ?A" "b \<in> ?B" for a b
  proof -
    from that obtain p q where
      p: "p \<in> set ?out" "priority p = i" "scheduled_start p = a" and
      q: "q \<in> set ?out" "priority q = j" "scheduled_start q = b"
      by (auto simp add: phase_placements_def)
    have "scheduled_start p < scheduled_start q"
      using assms(1) dw p(1) q(1) unfolding schedule_escalation_sequence_def
      by (rule phase_loop_ordered) (simp add: p(2) q(2) assms(3))
    then show ?thesis using p(3) q(3) by simp
  qed
  then have "\<forall>b \<in> ?B. Max ?A \<le> b"
    using ne by (simp add: Max_le_iff)
  then show ?thesis using ne by (simp add: Min_ge_iff)
qed

text \<open>Two phases of one week each, two actions and one action, from Monday
  2026-03-02; and the same with a first phase of zero weeks.\<close>

lemma escalation_two_phases_run:
  "map (\<lambda>p. (priority p, scheduled_start p))
     (schedule_escalation_sequence (\<lambda>k. 0)
        [\<lparr>phase = 1, name = ''A'', duration_weeks = 1, tactics = []\<rparr>,
         \<lparr>phase = 2, name = ''B'', duration_weeks = 1, tactics = []\<rparr>]
        (ymd2ord 2026 3 2) [1 \<mapsto> [1, 2], 2 \<mapsto> [3]])
   = [(1, mk_datetime 2026 3 2 9 0), (1, mk_datetime 2026 3 3 9 0),
      (2, mk_datetime 2026 3 9 9 0)]"
  by code_simp

lemma escalation_zero_weeks_run:
  "map (\<lambda>p. (priority p, scheduled_start p))
     (schedule_escalation_sequence (\<lambda>k. 0)
        [\<lparr>phase = 1, name = ''A'', duration_weeks = 0, tactics = []\<rparr>,
         \<lparr>phase = 2, name = ''B'', duration_weeks = 1, tactics = []\<rparr>]
        (ymd2ord 2026 3 2) [1 \<mapsto> [1, 2], 2 \<mapsto> [3]])
   = [(1, mk_datetime 2026 3 2 9 0), (1, mk_datetime 2026 3 2 10 0),
      (2, mk_datetime 2026 3 2 9 0)]"
  by code_simp

lemma phase_placements_starts:
  "map scheduled_start (phase_placements n out)
     = map snd (filter (\<lambda>x. fst x = n) (map (\<lambda>p. (priority p, scheduled_start p)) out))"
  by (induction out) (simp_all add: phase_placements_def)

theorem escalation_phases_ordered_witness:
  "sorted_wrt (<) (map phase
       [\<lparr>phase = 1, name = ''A'', duration_weeks = 1, tactics = []\<rparr>,
        \<lparr>phase = 2, name = ''B'', duration_weeks = 1, tactics = []\<rparr>])
   \<and> list_all (\<lambda>ph. 1 \<le> duration_weeks ph)
       [\<lparr>phase = 1, name = ''A'', duration_weeks = 1, tactics = []\<rparr>,
        \<lparr>phase = 2, name = ''B'', duration_weeks = 1, tactics = []\<rparr>]
   \<and> (1::int) < 2
   \<and> map scheduled_start (phase_placements 1 (schedule_escalation_sequence (\<lambda>k. 0)
        [\<lparr>phase = 1, name = ''A'', duration_weeks = 1, tactics = []\<rparr>,
         \<lparr>phase = 2, name = ''B'', duration_weeks = 1, tactics = []\<rparr>]
        (ymd2ord 2026 3 2) [1 \<mapsto> [1, 2], 2 \<mapsto> [3]]))
       = [mk_datetime 2026 3 2 9 0, mk_datetime 2026 3 3 9 0]
   \<and> map scheduled_start (phase_placements 2 (schedule_escalation_sequence (\<lambda>k. 0)
        [\<lparr>phase = 1, name = ''A'', duration_weeks = 1, tactics = []\<rparr>,
         \<lparr>phase = 2, name = ''B'', duration_weeks = 1, tactics = []\<rparr>]
        (ymd2ord 2026 3 2) [1 \<mapsto> [1, 2], 2 \<mapsto> [3]]))
       = [mk_datetime 2026 3 9 9 0]
   \<and> Max (set (map scheduled_start (phase_placements 1 (schedule_escalation_sequence (\<lambda>k. 0)
        [\<lparr>phase = 1, name = ''A'', duration_weeks = 1, tactics = []\<rparr>,
         \<lparr>phase = 2, name = ''B'', duration_weeks = 1, tactics = []\<rparr>]
        (ymd2ord 2026 3 2) [1 \<mapsto> [1, 2], 2 \<mapsto> [3]]))))
     \<le> Min (set (map scheduled_start (phase_placements 2 (schedule_escalation_sequence (\<lambda>k. 0)
        [\<lparr>phase = 1, name = ''A'', duration_weeks = 1, tactics = []\<rparr>,
         \<lparr>phase = 2, name = ''B'', duration_weeks = 1, tactics = []\<rparr>]
        (ymd2ord 2026 3 2) [1 \<mapsto> [1, 2], 2 \<mapsto> [3]]))))"
proof -
  let ?phases = "[\<lparr>phase = 1, name = ''A'', duration_weeks = 1, tactics = []\<rparr>,
        \<lparr>phase = 2, name = ''B'', duration_weeks = 1, tactics = []\<rparr>]"
  let ?out = "schedule_escalation_sequence (\<lambda>k. 0) ?phases (ymd2ord 2026 3 2)
        [1 \<mapsto> [1, 2], 2 \<mapsto> [3]]"
  have h1: "sorted_wrt (<) (map phase ?phases)" by simp
  have h2: "list_all (\<lambda>ph. 1 \<le> duration_weeks ph) ?phases" by simp
  have h3: "(1::int) < 2" by simp
  have s1: "map scheduled_start (phase_placements 1 ?out)
      = [mk_datetime 2026 3 2 9 0, mk_datetime 2026 3 3 9 0]"
    unfolding phase_placements_starts escalation_two_phases_run by simp
  have s2: "map scheduled_start (phase_placements 2 ?out) = [mk_datetime 2026 3 9 9 0]"
    unfolding phase_placements_starts escalation_two_phases_run by simp
  have h4: "phase_placements 1 ?out \<noteq> []" using s1 by auto
  have h5: "phase_placements 2 ?out \<noteq> []" using s2 by auto
  note t = escalation_phases_ordered [OF h1 h2 h3 h4 h5]
  show ?thesis
    by (intro conjI) (rule h1 h2 h3 s1 s2 t)+
qed

text \<open>
  Claim C6 as stated, for every phase list, fails when a phase lasts zero weeks: the next
  phase starts on the same day, and the second placement of phase 1 (at 10 o'clock) is
  after the placement of phase 2 (at 9 o'clock).
\<close>

theorem escalation_zero_weeks_counterexample:
  "\<not> Max (set (map scheduled_start (phase_placements 1 (schedule_escalation_sequence (\<lambda>k. 0)
        [\<lparr>phase = 1, name = ''A'', duration_weeks = 0, tactics = []\<rparr>,
         \<lparr>phase = 2, name = ''B'', duration_weeks = 1, tactics = []\<rparr>]
        (ymd2ord 2026 3 2) [1 \<mapsto> [1, 2], 2 \<mapsto> [3]]))))
     \<le> Min (set (map scheduled_start (phase_placements 2 (schedule_escalation_sequence (\<lambda>k. 0)
        [\<lparr>phase = 1, name = ''A'', duration_weeks = 0, tactics = []\<rparr>,
         \<lparr>phase = 2, name = ''B'', duration_weeks = 1, tactics = []\<rparr>]
        (ymd2ord 2026 3 2) [1 \<mapsto> [1, 2], 2 \<mapsto> [3]]))))"
proof -
  have "mk_datetime 2026 3 2 9 0 < mk_datetime 2026 3 2 10 0"
    by (simp add: mk_datetime_def dt_combine_def US_PER_HOUR_def)
  then show ?thesis
    unfolding phase_placements_starts escalation_zero_weeks_run by simp
qed

section \<open>Unvalidated parameters of the StaggerStrategy\<close>














section \<open>Window containment\<close>

text \<open>The placements of a phase lie in the window the source builds for the phase,
  when the phase's duration is not negative.\<close>

lemma schedule_phase_within_window:
  assumes "0 \<le> duration_weeks ph"
    and "p \<in> set (fst (schedule_phase g ph phase_start acts k))"
  shows "start (phase_window phase_start (phase_start + 7 * duration_weeks ph))
           \<le> scheduled_start p
       \<and> scheduled_start p
           \<le> end' (phase_window phase_start (phase_start + 7 * duration_weeks ph))"
proof -
  let ?days = "nat (max 1 (7 * duration_weeks ph))"
  let ?apd = "nat (max 1 (int (length acts) div max 1 (7 * duration_weeks ph)))"
  have sp: "schedule_phase g ph phase_start acts k
      = day_loop g ph phase_start acts ?apd [0..<?days] 0 k"
    by (simp add: schedule_phase_def Let_def)
  from assms(2) have "p \<in> set (fst (day_loop g ph phase_start acts ?apd [0..<?days] 0 k))"
    by (simp only: sp)
  from day_loop_placement [OF this] obtain off h m where
    off: "off < ?days" and
    st: "scheduled_start p = dt_combine (phase_start + int off) h m" and
    hm: "9 \<le> h" "h \<le> 16" "0 \<le> m" "m \<le> 59"
    by auto
  have "int off < max 1 (7 * duration_weeks ph)" using off by simp
  then have off': "0 \<le> int off" "int off = 0 \<or> int off + 1 \<le> 7 * duration_weeks ph"
    using assms(1) by auto
  show ?thesis
    using off' hm assms(1)
    by (auto simp add: st phase_window_def default_window_def dt_combine_def
        US_PER_DAY_def US_PER_HOUR_def US_PER_MINUTE_def)
qed

text \<open>
  Claim C3 fails on the code for the e-mail campaign. The loop compares the stale
  \<open>current_date\<close> with the window's end date, while the cursor \<open>current_time\<close> may already
  have been rolled over a weekend. In the window from Friday 2026-03-06 09:00 to Saturday
  2026-03-07 17:00, with one e-mail per day, the second e-mail is placed on Monday
  2026-03-09 at 09:00: after the window's end, and after the window's end date.
\<close>

theorem email_campaign_placement_after_window_end:
  "start (default_window (mk_datetime 2026 3 6 9 0) (mk_datetime 2026 3 7 17 0))
     \<le> end' (default_window (mk_datetime 2026 3 6 9 0) (mk_datetime 2026 3 7 17 0))
   \<and> map_option (map_sum id (map (\<lambda>p. (action_id p, scheduled_start p))))
       (schedule_email_campaign (\<lambda>k. 0) [1, 2]
          (default_window (mk_datetime 2026 3 6 9 0) (mk_datetime 2026 3 7 17 0)) 1 15 True)
       = Some (Inr [(1, mk_datetime 2026 3 6 9 0), (2, mk_datetime 2026 3 9 9 0)])
   \<and> end' (default_window (mk_datetime 2026 3 6 9 0) (mk_datetime 2026 3 7 17 0))
       < mk_datetime 2026 3 9 9 0
   \<and> dt_date (end' (default_window (mk_datetime 2026 3 6 9 0) (mk_datetime 2026 3 7 17 0)))
       < dt_date (mk_datetime 2026 3 9 9 0)"
proof -
  have d: "mk_datetime 2026 3 6 9 0 \<le> mk_datetime 2026 3 7 17 0
      \<and> mk_datetime 2026 3 7 17 0 < mk_datetime 2026 3 9 9 0
      \<and> dt_date (mk_datetime 2026 3 7 17 0) < dt_date (mk_datetime 2026 3 9 9 0)"
    by code_simp
  show ?thesis
    using d email_friday_saturday_run by (simp add: default_window_def)
qed

section \<open>Properties of the RampStrategy\<close>


















section \<open>Unvalidated strategy parameters\<close>










end
